theory Spec2Isabelle
  imports Main "HOL-Library.Word"
begin

section \<open>The dynamic thread pond of Hipe (dynamic\_pond.h)\<close>

text \<open>
  The class \<open>hipe::DynamicThreadPond\<close> is embedded as a record of its data members and
  one HOL function per member function. Everything a member function does under
  \<open>shared_locker\<close> is one atomic state change. A worker thread is a program counter stored
  with its thread handle in \<open>pond\<close>; each line of the worker loop that touches shared state
  is one atomic step of \<open>worker_step\<close>. Calls of \<open>notify_one\<close> and \<open>notify_all\<close> are recorded
  in the trace \<open>notified\<close>. Faults (a failed \<open>assert\<close>, \<open>std::system_error\<close>,
  \<open>std::terminate\<close>, undefined behaviour) and a call that would block forever are values
  of the type \<open>failure\<close>.

  The task counters \<open>total_tasks\<close> and \<open>task_loaded\<close> are \<open>std::atomic_int\<close>: 32-bit
  words whose arithmetic wraps around, read as signed values by \<open>load()\<close>. The thread
  counters \<open>thread_numb\<close> and \<open>shrink_numb\<close> are integers: they count threads of the
  process, which stay far below \<open>2^31\<close>. A \<open>size_t\<close> is a natural number.
\<close>

subsection \<open>Tasks\<close>

text \<open>What the submitted callable does when it is called: it returns, or it throws.\<close>

datatype callable = Returns | Raises

text \<open>
  Modelled from the spec: \<open>HipeTask\<close> and \<open>util::invoke\<close> are declared in header.h, which
  is not part of the sources at hand. A task is the type-erased callable itself (\<open>submit\<close>,
  \<open>submitInBatch\<close>) or a \<open>std::packaged_task\<close> wrapped around it (\<open>submitForReturn\<close>);
  \<open>invoke\<close> calls the task. A packaged task stores the value or the exception in the shared
  state of its future and returns normally; a plain task lets the exception escape.
\<close>

datatype HipeTask = Plain callable | Packaged callable

datatype channel_result = Value | Failure

datatype invoke_result = Completed "channel_result option" | Thrown

fun invoke :: "HipeTask \<Rightarrow> invoke_result" where
  "invoke (Plain Returns) = Completed None"
| "invoke (Plain Raises) = Thrown"
| "invoke (Packaged Returns) = Completed (Some Value)"
| "invoke (Packaged Raises) = Completed (Some Failure)"

subsection \<open>State\<close>

text \<open>
  The program counter of a worker thread, by the line of \<open>worker\<close> it is at:
  \<open>LoopHead\<close> before the test of \<open>while (!stop)\<close>, \<open>Waiting\<close> inside \<open>awake_cv.wait\<close>,
  \<open>Dequeued t\<close> before \<open>task_loaded++\<close>, \<open>Invoking t\<close> before \<open>util::invoke(task)\<close>,
  \<open>Invoked\<close> before \<open>--total_tasks\<close>, \<open>Notifying\<close> before \<open>if (waiting)\<close>, and \<open>Finished\<close>
  once the thread function has returned. \<open>Unwound\<close>: the task has thrown and the
  exception has left \<open>worker\<close>; what is left to the thread is the call of
  \<open>std::terminate\<close>, which ends the process. Until then the other threads go on.
\<close>

datatype worker_pc =
    LoopHead
  | Waiting
  | Dequeued HipeTask
  | Invoking HipeTask
  | Invoked
  | Notifying
  | Finished
  | Unwound

text \<open>A \<open>std::thread\<close> handle: joinable with its thread of execution, or not joinable.\<close>

datatype thread = Joinable worker_pc | NotJoinable

datatype cv = awake_cv | task_done_cv

datatype signal = NotifyOne cv | NotifyAll cv

datatype failure =
    AssertionFailure
  | SystemError
  | Terminate
  | UndefinedBehaviour
  | Blocked

record pond_state =
  stop :: bool
  thread_numb :: int
  waiting :: bool
  total_tasks :: "32 word"
  shared_tq :: "HipeTask list"
  pond :: "thread list"
  shrink_numb :: int
  deleted_threads :: "nat list"
  task_loaded :: "32 word"
  channels :: "channel_result list"
  notified :: "signal list"

text \<open>
  \<open>channels\<close> collects what the packaged tasks have stored in their futures, in the order
  of execution; \<open>notified\<close> is the trace of the notifications.
\<close>

definition notify :: "signal \<Rightarrow> pond_state \<Rightarrow> pond_state" where
  "notify sg s = s\<lparr>notified := notified s @ [sg]\<rparr>"

definition set_pc :: "nat \<Rightarrow> worker_pc \<Rightarrow> pond_state \<Rightarrow> pond_state" where
  "set_pc index pc s = s\<lparr>pond := (pond s)[index := Joinable pc]\<rparr>"

text \<open>Sequencing of calls that may fail.\<close>

fun and_then :: "failure + 'a \<Rightarrow> ('a \<Rightarrow> failure + 'b) \<Rightarrow> failure + 'b" where
  "and_then (Inl e) f = Inl e"
| "and_then (Inr x) f = f x"

subsection \<open>The worker loop\<close>

text \<open>The predicate of \<open>awake_cv.wait\<close>.\<close>

definition wait_pred :: "pond_state \<Rightarrow> bool" where
  "wait_pred s \<longleftrightarrow> shared_tq s \<noteq> [] \<or> stop s \<or> shrink_numb s > 0"

text \<open>
  What a worker does, holding the lock, once \<open>awake_cv.wait\<close> has returned: the shrink
  branch, the dequeue, or the way back to the loop test. \<open>front()\<close> of an empty queue is
  undefined behaviour.
\<close>

definition worker_wake :: "nat \<Rightarrow> pond_state \<Rightarrow> failure + pond_state" where
  "worker_wake index s =
     (if shrink_numb s \<noteq> 0 then
        Inr (set_pc index Finished
          (s\<lparr>shrink_numb := shrink_numb s - 1,
             deleted_threads := deleted_threads s @ [index]\<rparr>))
      else if \<not> stop s then
        (case shared_tq s of
           [] \<Rightarrow> Inl UndefinedBehaviour
         | t # q \<Rightarrow> Inr (set_pc index (Dequeued t) (s\<lparr>shared_tq := q\<rparr>)))
      else Inr (set_pc index LoopHead s))"

text \<open>One atomic step of the worker at \<open>index\<close>; a step that is not enabled changes nothing.\<close>

definition pc_step :: "nat \<Rightarrow> worker_pc \<Rightarrow> pond_state \<Rightarrow> failure + pond_state" where
  "pc_step index pc s =
     (case pc of
        LoopHead \<Rightarrow> Inr (set_pc index (if stop s then Finished else Waiting) s)
      | Waiting \<Rightarrow> if wait_pred s then worker_wake index s else Inr s
      | Dequeued t \<Rightarrow>
          Inr (set_pc index (Invoking t) (s\<lparr>task_loaded := task_loaded s + 1\<rparr>))
      | Invoking t \<Rightarrow>
          (case invoke t of
             Thrown \<Rightarrow> Inr (set_pc index Unwound s)
           | Completed None \<Rightarrow> Inr (set_pc index Invoked s)
           | Completed (Some r) \<Rightarrow>
               Inr (set_pc index Invoked (s\<lparr>channels := channels s @ [r]\<rparr>)))
      | Invoked \<Rightarrow> Inr (set_pc index Notifying (s\<lparr>total_tasks := total_tasks s - 1\<rparr>))
      | Notifying \<Rightarrow>
          Inr (set_pc index LoopHead
            (if waiting s then notify (NotifyOne task_done_cv) s else s))
      | Finished \<Rightarrow> Inr s
      | Unwound \<Rightarrow> Inl Terminate)"

definition worker_step :: "nat \<Rightarrow> pond_state \<Rightarrow> failure + pond_state" where
  "worker_step index s =
     (if index < length (pond s) then
        (case pond s ! index of
           Joinable pc \<Rightarrow> pc_step index pc s
         | NotJoinable \<Rightarrow> Inr s)
      else Inr s)"

text \<open>
  Whether the worker at \<open>index\<close> can take a step that changes the state: it has a thread
  of execution that has not returned and is not held back by the wait predicate.
\<close>

definition runnable :: "nat \<Rightarrow> pond_state \<Rightarrow> bool" where
  "runnable index s \<longleftrightarrow>
     index < length (pond s) \<and>
     (case pond s ! index of
        Joinable pc \<Rightarrow> pc \<noteq> Finished \<and> (pc = Waiting \<longrightarrow> wait_pred s)
      | NotJoinable \<Rightarrow> False)"

fun pc_rank :: "bool \<Rightarrow> worker_pc \<Rightarrow> nat" where
  "pc_rank st LoopHead = 2"
| "pc_rank st Waiting = (if st then 3 else 1)"
| "pc_rank st (Dequeued t) = 7"
| "pc_rank st (Invoking t) = 6"
| "pc_rank st Invoked = 5"
| "pc_rank st Notifying = 4"
| "pc_rank st Finished = 0"
| "pc_rank st Unwound = 0"

definition worker_measure :: "nat \<Rightarrow> pond_state \<Rightarrow> nat" where
  "worker_measure index s =
     8 * length (shared_tq s) +
     (case pond s ! index of Joinable pc \<Rightarrow> pc_rank (stop s) pc | NotJoinable \<Rightarrow> 0)"

text \<open>
  The thread function \<open>worker(index)\<close> run from the current program counter for as long as
  it can go on by itself. It ends with the thread function returned, or it stays in
  \<open>awake_cv.wait\<close> with a false predicate, where only another thread could release it.
\<close>

function worker :: "nat \<Rightarrow> pond_state \<Rightarrow> failure + pond_state" where
  "worker index s =
     (if runnable index s then
        (case worker_step index s of
           Inl e \<Rightarrow> Inl e
         | Inr s' \<Rightarrow> worker index s')
      else if index < length (pond s) \<and> pond s ! index = Joinable Waiting then Inl Blocked
      else Inr s)"
  by pat_completeness auto
termination
proof (relation "measure (\<lambda>(index, s). worker_measure index s)")
  show "wf (measure (\<lambda>(index, s). worker_measure index s))" by simp
next
  fix index s s'
  assume r: "runnable index s" and st: "worker_step index s = Inr s'"
  from r obtain pc where lt: "index < length (pond s)" and pc: "pond s ! index = Joinable pc"
    and nf: "pc \<noteq> Finished" and wp: "pc = Waiting \<longrightarrow> wait_pred s"
    by (auto simp: runnable_def split: thread.splits)
  from st lt pc have ps: "pc_step index pc s = Inr s'"
    by (simp add: worker_step_def)
  have "worker_measure index s' < worker_measure index s"
    using ps lt pc nf wp
    by (cases pc)
       (auto simp: pc_step_def worker_measure_def set_pc_def worker_wake_def wait_pred_def
          notify_def split: if_splits list.splits invoke_result.splits option.splits)
  then show "((index, s'), (index, s)) \<in> measure (\<lambda>(index, s). worker_measure index s)"
    by simp
qed

declare worker.simps [simp del]

subsection \<open>Construction, close and destruction\<close>

text \<open>The constructor: \<open>assert(tnumb >= 0)\<close>, then one worker per slot.\<close>

definition DynamicThreadPond :: "int \<Rightarrow> failure + pond_state" where
  "DynamicThreadPond tnumb =
     (if tnumb \<ge> 0 then
        Inr \<lparr>stop = False, thread_numb = tnumb, waiting = False, total_tasks = 0,
             shared_tq = [], pond = replicate (nat tnumb) (Joinable LoopHead),
             shrink_numb = 0, deleted_threads = [], task_loaded = 0,
             channels = [], notified = []\<rparr>
      else Inl AssertionFailure)"

text \<open>
  \<open>pond[idx].join()\<close>: \<open>std::system_error\<close> on a handle that is not joinable; otherwise
  the caller waits until the thread function has returned, and the handle is no longer
  joinable afterwards. An index outside the vector is undefined behaviour.
\<close>

definition join :: "nat \<Rightarrow> pond_state \<Rightarrow> failure + pond_state" where
  "join idx s =
     (if idx < length (pond s) then
        (case pond s ! idx of
           NotJoinable \<Rightarrow> Inl SystemError
         | Joinable pc \<Rightarrow>
             (case worker idx s of
                Inl e \<Rightarrow> Inl e
              | Inr s' \<Rightarrow> Inr (s'\<lparr>pond := (pond s')[idx := NotJoinable]\<rparr>)))
      else Inl UndefinedBehaviour)"

text \<open>\<open>for (auto &thread : pond) thread.join()\<close>, with \<open>n\<close> handles left from index \<open>i\<close> on.\<close>

fun join_loop :: "nat \<Rightarrow> nat \<Rightarrow> pond_state \<Rightarrow> failure + pond_state" where
  "join_loop 0 i s = Inr s"
| "join_loop (Suc n) i s =
     (case join i s of
        Inl e \<Rightarrow> Inl e
      | Inr s' \<Rightarrow> join_loop n (Suc i) s')"

definition close :: "pond_state \<Rightarrow> failure + pond_state" where
  "close s =
     join_loop (length (pond s)) 0 (notify (NotifyAll awake_cv) (s\<lparr>stop := True\<rparr>))"

text \<open>The destructor \<open>~DynamicThreadPond\<close>.\<close>

definition destroy :: "pond_state \<Rightarrow> failure + pond_state" where
  "destroy s = (if \<not> stop s then close s else Inr s)"

subsection \<open>Growing and shrinking\<close>

text \<open>
  One pass through the body of \<open>while (tnumb--)\<close> in \<open>addThreads\<close>. The recycle queue
  is read under the lock, as it is at that moment; the lock is released before the join
  and before the next pass, so worker steps can come between two passes.
\<close>

definition addThreads_iteration :: "pond_state \<Rightarrow> failure + pond_state" where
  "addThreads_iteration s =
     (case deleted_threads s of
        idx # rest \<Rightarrow>
          (case join idx (s\<lparr>deleted_threads := rest\<rparr>) of
             Inl e \<Rightarrow> Inl e
           | Inr s1 \<Rightarrow>
               Inr (s1\<lparr>pond := (pond s1)[idx := Joinable LoopHead],
                       thread_numb := thread_numb s1 + 1\<rparr>))
      | [] \<Rightarrow>
          Inr (s\<lparr>pond := pond s @ [Joinable LoopHead],
                 thread_numb := thread_numb s + 1\<rparr>))"

text \<open>
  \<open>n\<close> passes with no step of another thread between them: the call of \<open>addThreads\<close>
  when nothing interferes. In a run the passes are single events.
\<close>

fun addThreads_loop :: "nat \<Rightarrow> pond_state \<Rightarrow> failure + pond_state" where
  "addThreads_loop 0 s = Inr s"
| "addThreads_loop (Suc n) s =
     (case addThreads_iteration s of
        Inl e \<Rightarrow> Inl e
      | Inr s' \<Rightarrow> addThreads_loop n s')"

definition addThreads :: "int \<Rightarrow> pond_state \<Rightarrow> failure + pond_state" where
  "addThreads tnumb s =
     (if tnumb \<ge> 0 then addThreads_loop (nat tnumb) s else Inl AssertionFailure)"

definition delThreads :: "int \<Rightarrow> pond_state \<Rightarrow> failure + pond_state" where
  "delThreads tnumb s =
     (if tnumb \<le> thread_numb s \<and> tnumb \<ge> 0 then
        Inr (notify (NotifyAll awake_cv)
          (s\<lparr>shrink_numb := shrink_numb s + tnumb,
             thread_numb := thread_numb s - tnumb\<rparr>))
      else Inl AssertionFailure)"

definition adjustThreads :: "int \<Rightarrow> pond_state \<Rightarrow> failure + pond_state" where
  "adjustThreads target_tnumb s =
     (if target_tnumb \<ge> 0 then
        (if target_tnumb > thread_numb s then
           addThreads (target_tnumb - thread_numb s) s
         else if target_tnumb < thread_numb s then
           delThreads (thread_numb s - target_tnumb) s
         else Inr s)
      else Inl AssertionFailure)"

subsection \<open>Observers and the completion barrier\<close>

definition getTasksRemain :: "pond_state \<Rightarrow> int" where
  "getTasksRemain s = sint (total_tasks s)"

definition getTaskLoaded :: "pond_state \<Rightarrow> int" where
  "getTaskLoaded s = sint (task_loaded s)"

definition resetTaskLoaded :: "pond_state \<Rightarrow> int \<times> pond_state" where
  "resetTaskLoaded s = (sint (task_loaded s), s\<lparr>task_loaded := 0\<rparr>)"

definition getThreadNumb :: "pond_state \<Rightarrow> int" where
  "getThreadNumb s = thread_numb s"

text \<open>
  \<open>waitForTasks\<close> in its three parts: \<open>waiting = true\<close>; the wait on \<open>task_done_cv\<close>, which
  returns when its predicate \<open>!total_tasks\<close> holds and otherwise leaves the caller
  suspended; \<open>waiting = false\<close>. A suspended caller evaluates the predicate again, under the
  lock, whenever the condition variable is signalled (\<open>waitForTasks_signalled\<close>).
\<close>

datatype wait_result = Returned pond_state | Suspended pond_state

definition drained :: "pond_state \<Rightarrow> bool" where
  "drained s \<longleftrightarrow> total_tasks s = 0"

definition waitForTasks_signalled :: "pond_state \<Rightarrow> wait_result" where
  "waitForTasks_signalled s =
     (if drained s then Returned (s\<lparr>waiting := False\<rparr>) else Suspended s)"

definition waitForTasks :: "pond_state \<Rightarrow> wait_result" where
  "waitForTasks s = waitForTasks_signalled (s\<lparr>waiting := True\<rparr>)"

subsection \<open>Submission\<close>

definition submit :: "callable \<Rightarrow> pond_state \<Rightarrow> pond_state" where
  "submit foo s =
     notify (NotifyOne awake_cv)
       (s\<lparr>shared_tq := shared_tq s @ [Plain foo], total_tasks := total_tasks s + 1\<rparr>)"

definition submitForReturn :: "callable \<Rightarrow> pond_state \<Rightarrow> pond_state" where
  "submitForReturn foo s =
     notify (NotifyOne awake_cv)
       (s\<lparr>shared_tq := shared_tq s @ [Packaged foo], total_tasks := total_tasks s + 1\<rparr>)"

text \<open>
  The loop of \<open>submitInBatch\<close> from index \<open>i\<close> on, with \<open>n\<close> iterations left. The container
  is read with \<open>cont[i]\<close>; an index beyond its end is undefined behaviour.
  \<open>static_cast<int>(size)\<close> keeps the low 32 bits of \<open>size\<close>.
\<close>

fun emplace_loop :: "HipeTask list \<Rightarrow> nat \<Rightarrow> nat \<Rightarrow> pond_state \<Rightarrow> failure + pond_state" where
  "emplace_loop cont 0 i s = Inr s"
| "emplace_loop cont (Suc n) i s =
     (if i < length cont then
        emplace_loop cont n (Suc i) (s\<lparr>shared_tq := shared_tq s @ [cont ! i]\<rparr>)
      else Inl UndefinedBehaviour)"

definition submitInBatch :: "HipeTask list \<Rightarrow> nat \<Rightarrow> pond_state \<Rightarrow> failure + pond_state" where
  "submitInBatch cont sz s =
     (case emplace_loop cont sz 0 (s\<lparr>total_tasks := total_tasks s + of_nat sz\<rparr>) of
        Inl e \<Rightarrow> Inl e
      | Inr s' \<Rightarrow> Inr (notify (NotifyAll awake_cv) s'))"

subsection \<open>Runs of the pond\<close>

text \<open>
  A run interleaves atomic steps of the workers with calls from the outside. It stops at
  the first fault. \<open>AddThreadsIteration\<close> is one pass of the loop of \<open>addThreads\<close>, so
  that a run can place worker steps between the passes of one call; \<open>AddThreads\<close> and
  \<open>AdjustThreads\<close> are the calls when nothing comes between their passes.
\<close>

datatype event =
    Work nat
  | Submit callable
  | SubmitForReturn callable
  | SubmitInBatch "HipeTask list" nat
  | AddThreads int
  | AddThreadsIteration
  | DelThreads int
  | AdjustThreads int
  | WaitForTasks
  | ResetTaskLoaded
  | Close

fun step :: "event \<Rightarrow> pond_state \<Rightarrow> failure + pond_state" where
  "step (Work i) s = worker_step i s"
| "step (Submit foo) s = Inr (submit foo s)"
| "step (SubmitForReturn foo) s = Inr (submitForReturn foo s)"
| "step (SubmitInBatch cont n) s = submitInBatch cont n s"
| "step (AddThreads n) s = addThreads n s"
| "step AddThreadsIteration s = addThreads_iteration s"
| "step (DelThreads n) s = delThreads n s"
| "step (AdjustThreads n) s = adjustThreads n s"
| "step WaitForTasks s =
     (case waitForTasks s of Returned s' \<Rightarrow> Inr s' | Suspended s' \<Rightarrow> Inr s')"
| "step ResetTaskLoaded s = Inr (snd (resetTaskLoaded s))"
| "step Close s = close s"

fun run :: "event list \<Rightarrow> pond_state \<Rightarrow> failure + pond_state" where
  "run [] s = Inr s"
| "run (ev # evs) s =
     (case step ev s of
        Inl e \<Rightarrow> Inl e
      | Inr s' \<Rightarrow> run evs s')"

subsection \<open>Predicates on states\<close>

text \<open>
  A thread holds a task from the dequeue until it has executed \<open>--total_tasks\<close>; a
  thread that has left \<open>worker\<close> through an exception holds its task for good.
  \<open>in_flight\<close> counts these threads, \<open>outstanding\<close> adds the queued tasks. The pond is
  \<open>accounted\<close> when \<open>total_tasks\<close> is the number of outstanding tasks as a 32-bit word.
\<close>

fun holds_task :: "thread \<Rightarrow> bool" where
  "holds_task (Joinable (Dequeued t)) = True"
| "holds_task (Joinable (Invoking t)) = True"
| "holds_task (Joinable Invoked) = True"
| "holds_task (Joinable Unwound) = True"
| "holds_task _ = False"

definition in_flight :: "pond_state \<Rightarrow> nat" where
  "in_flight s = length (filter holds_task (pond s))"

definition outstanding :: "pond_state \<Rightarrow> nat" where
  "outstanding s = length (shared_tq s) + in_flight s"

definition accounted :: "pond_state \<Rightarrow> bool" where
  "accounted s \<longleftrightarrow> total_tasks s = of_nat (outstanding s)"

text \<open>The task of the worker at \<open>index\<close> has thrown.\<close>

definition unwound :: "nat \<Rightarrow> pond_state \<Rightarrow> bool" where
  "unwound index s \<longleftrightarrow> index < length (pond s) \<and> pond s ! index = Joinable Unwound"

text \<open>
  The recycle queue is in order when its indices are distinct and each one is the slot
  of a thread whose function has returned and that has not been joined yet.
\<close>

definition recyclable :: "pond_state \<Rightarrow> bool" where
  "recyclable s \<longleftrightarrow>
     distinct (deleted_threads s) \<and>
     (\<forall>idx \<in> set (deleted_threads s).
        idx < length (pond s) \<and> pond s ! idx = Joinable Finished)"

subsection \<open>Example states\<close>

text \<open>
  \<open>one_worker\<close>: a pond with one worker in \<open>awake_cv.wait\<close> and one queued task;
  \<open>no_worker\<close>: a pond with no thread and one queued task.
\<close>

definition one_worker :: pond_state where
  "one_worker =
     \<lparr>stop = False, thread_numb = 1, waiting = False, total_tasks = 1,
      shared_tq = [Plain Returns], pond = [Joinable Waiting],
      shrink_numb = 0, deleted_threads = [], task_loaded = 0,
      channels = [], notified = []\<rparr>"

definition no_worker :: pond_state where
  "no_worker =
     \<lparr>stop = False, thread_numb = 0, waiting = False, total_tasks = 1,
      shared_tq = [Plain Returns], pond = [],
      shrink_numb = 0, deleted_threads = [], task_loaded = 0,
      channels = [], notified = []\<rparr>"

text \<open>
  \<open>shrinking\<close>: two workers in \<open>awake_cv.wait\<close>, two queued tasks and one pending shrink
  request.
\<close>

definition shrinking :: pond_state where
  "shrinking =
     \<lparr>stop = False, thread_numb = 1, waiting = False, total_tasks = 2,
      shared_tq = [Plain Returns, Packaged Returns],
      pond = [Joinable Waiting, Joinable Waiting],
      shrink_numb = 1, deleted_threads = [], task_loaded = 0,
      channels = [], notified = [NotifyAll awake_cv]\<rparr>"

text \<open>\<open>idle1\<close>: the pond that \<open>DynamicThreadPond(1)\<close> constructs.\<close>

definition idle1 :: pond_state where
  "idle1 =
     \<lparr>stop = False, thread_numb = 1, waiting = False, total_tasks = 0,
      shared_tq = [], pond = [Joinable LoopHead],
      shrink_numb = 0, deleted_threads = [], task_loaded = 0,
      channels = [], notified = []\<rparr>"

text \<open>
  \<open>throwing1\<close> and \<open>capturing1\<close>: one worker about to invoke a throwing task, submitted
  with \<open>submit\<close> and with \<open>submitForReturn\<close>.
\<close>

definition throwing1 :: pond_state where
  "throwing1 =
     \<lparr>stop = False, thread_numb = 1, waiting = False, total_tasks = 1,
      shared_tq = [], pond = [Joinable (Invoking (Plain Raises))],
      shrink_numb = 0, deleted_threads = [], task_loaded = 1,
      channels = [], notified = [NotifyOne awake_cv]\<rparr>"

definition capturing1 :: pond_state where
  "capturing1 =
     \<lparr>stop = False, thread_numb = 1, waiting = False, total_tasks = 1,
      shared_tq = [], pond = [Joinable (Invoking (Packaged Raises))],
      shrink_numb = 0, deleted_threads = [], task_loaded = 1,
      channels = [], notified = [NotifyOne awake_cv]\<rparr>"


text \<open>
  \<open>shrunk1\<close>: the pond \<open>idle1\<close> after \<open>delThreads(1)\<close> and the exit of its worker.
\<close>

definition shrunk1 :: pond_state where
  "shrunk1 =
     \<lparr>stop = False, thread_numb = 0, waiting = False, total_tasks = 0,
      shared_tq = [], pond = [Joinable Finished],
      shrink_numb = 0, deleted_threads = [0], task_loaded = 0,
      channels = [], notified = [NotifyAll awake_cv]\<rparr>"

text \<open>
  \<open>batch1\<close>: the pond \<open>idle1\<close> after one \<open>submit\<close> and a batch of two tasks, with its worker
  about to invoke the first task.
\<close>

definition batch1 :: pond_state where
  "batch1 =
     \<lparr>stop = False, thread_numb = 1, waiting = False, total_tasks = 3,
      shared_tq = [Packaged Raises, Plain Returns],
      pond = [Joinable (Invoking (Plain Returns))],
      shrink_numb = 0, deleted_threads = [], task_loaded = 1,
      channels = [], notified = [NotifyOne awake_cv, NotifyAll awake_cv]\<rparr>"



section \<open>Properties\<close>

subsection \<open>What a worker and a join leave unchanged\<close>

lemma pc_step_frame:
  assumes "pc_step i pc s = Inr s'"
  shows "length (pond s') = length (pond s) \<and> stop s' = stop s \<and>
         thread_numb s' = thread_numb s \<and> (\<forall>j. j \<noteq> i \<longrightarrow> pond s' ! j = pond s ! j)"
  using assms
  by (cases pc)
     (auto simp: pc_step_def set_pc_def worker_wake_def notify_def
        split: if_splits list.splits invoke_result.splits option.splits)

lemma worker_step_frame:
  assumes "worker_step i s = Inr s'"
  shows "length (pond s') = length (pond s) \<and> stop s' = stop s \<and>
         thread_numb s' = thread_numb s \<and> (\<forall>j. j \<noteq> i \<longrightarrow> pond s' ! j = pond s ! j)"
  using assms pc_step_frame [of i _ s s']
  by (auto simp: worker_step_def split: if_splits thread.splits)

lemma worker_frame:
  "worker i s = Inr s' \<Longrightarrow>
     length (pond s') = length (pond s) \<and> stop s' = stop s \<and>
     thread_numb s' = thread_numb s \<and> (\<forall>j. j \<noteq> i \<longrightarrow> pond s' ! j = pond s ! j)"
proof (induction i s rule: worker.induct)
  case (1 index s)
  show ?case
  proof (cases "runnable index s")
    case True
    with "1.prems" obtain s1 where st: "worker_step index s = Inr s1" and w: "worker index s1 = Inr s'"
      by (auto simp: worker.simps [of index s] split: sum.splits)
    from "1.IH" [OF True st w] worker_step_frame [OF st] show ?thesis by simp
  next
    case False
    with "1.prems" show ?thesis
      by (auto simp: worker.simps [of index s] split: if_splits)
  qed
qed

lemma join_frame:
  assumes "join i s = Inr s'"
  shows "length (pond s') = length (pond s) \<and> stop s' = stop s \<and>
         thread_numb s' = thread_numb s \<and> pond s' ! i = NotJoinable \<and>
         (\<forall>j. j \<noteq> i \<longrightarrow> pond s' ! j = pond s ! j)"
  using assms worker_frame [of i s]
  by (auto simp: join_def split: if_splits thread.splits sum.splits)

lemma join_loop_frame:
  "join_loop n i s = Inr s' \<Longrightarrow>
     length (pond s') = length (pond s) \<and> stop s' = stop s \<and>
     thread_numb s' = thread_numb s \<and>
     (\<forall>j. i \<le> j \<and> j < i + n \<longrightarrow> pond s' ! j = NotJoinable) \<and>
     (\<forall>j. j < i \<longrightarrow> pond s' ! j = pond s ! j)"
proof (induction n arbitrary: i s)
  case 0
  then show ?case by auto
next
  case (Suc n)
  from Suc.prems obtain s1 where j: "join i s = Inr s1" and l: "join_loop n (Suc i) s1 = Inr s'"
    by (auto split: sum.splits)
  note f1 = join_frame [OF j] and f2 = Suc.IH [OF l]
  have "pond s' ! j = NotJoinable" if "i \<le> j" "j < i + Suc n" for j
  proof (cases "j = i")
    case True
    with f1 f2 show ?thesis by simp
  next
    case False
    with that f2 show ?thesis by simp
  qed
  moreover have "pond s' ! j = pond s ! j" if "j < i" for j
    using that f1 f2 by simp
  ultimately show ?case using f1 f2 by simp
qed

lemma close_frame:
  assumes "close s = Inr s'"
  shows "length (pond s') = length (pond s) \<and> stop s' \<and> thread_numb s' = thread_numb s \<and>
         (\<forall>j < length (pond s'). pond s' ! j = NotJoinable)"
  using join_loop_frame [OF assms [unfolded close_def]]
  by (simp add: notify_def)

subsection \<open>Closing twice\<close>

text \<open>
  C1, as stated: a second call of \<open>close()\<close> after a completed one is a no-op without
  fault. It fails on a pond constructed with one thread: the second call joins a handle
  that the first call has already joined, which throws \<open>std::system_error\<close>.
\<close>

theorem close_twice_counterexample:
  "and_then (and_then (DynamicThreadPond 1) close) close = Inl SystemError"
  by (simp add: DynamicThreadPond_def close_def join_def worker.simps runnable_def
        worker_step_def pc_step_def set_pc_def notify_def)

text \<open>
  C1, amended: after a completed \<open>close()\<close> the destructor does nothing, since it calls
  \<open>close()\<close> only while \<open>stop\<close> is unset. A second explicit \<open>close()\<close> completes without
  fault, changing no data member, exactly when the pond has no thread slot; with at least
  one slot it throws \<open>std::system_error\<close>.
\<close>

theorem close_then_close_or_destroy:
  assumes "close s = Inr s'"
  shows "destroy s' = Inr s' \<and>
         (pond s' = [] \<longrightarrow> close s' = Inr (notify (NotifyAll awake_cv) s')) \<and>
         (pond s' \<noteq> [] \<longrightarrow> close s' = Inl SystemError)"
proof -
  note f = close_frame [OF assms]
  from f have st: "s'\<lparr>stop := True\<rparr> = s'" by simp
  have d: "destroy s' = Inr s'" using f by (simp add: destroy_def)
  have e: "close s' = Inr (notify (NotifyAll awake_cv) s')" if "pond s' = []"
    using that st by (simp add: close_def)
  have n: "close s' = Inl SystemError" if ne: "pond s' \<noteq> []"
  proof -
    from ne obtain m where m: "length (pond s') = Suc m" by (cases "pond s'") auto
    from m f have "pond s' ! 0 = NotJoinable" by auto
    then have "join 0 (notify (NotifyAll awake_cv) s') = Inl SystemError"
      using ne by (simp add: join_def notify_def)
    then show ?thesis using m st by (simp add: close_def)
  qed
  from d e n show ?thesis by blast
qed

text \<open>C1, amended: the theorem at the ponds \<open>one_worker\<close> and \<open>no_worker\<close>.\<close>

theorem close_then_close_or_destroy_witness:
  "close one_worker = Inr (one_worker\<lparr>stop := True, pond := [NotJoinable], notified := [NotifyAll awake_cv]\<rparr>) \<and>
   close (one_worker\<lparr>stop := True, pond := [NotJoinable], notified := [NotifyAll awake_cv]\<rparr>) = Inl SystemError \<and>
   destroy (one_worker\<lparr>stop := True, pond := [NotJoinable], notified := [NotifyAll awake_cv]\<rparr>)
     = Inr (one_worker\<lparr>stop := True, pond := [NotJoinable], notified := [NotifyAll awake_cv]\<rparr>) \<and>
   close no_worker = Inr (no_worker\<lparr>stop := True, notified := [NotifyAll awake_cv]\<rparr>) \<and>
   close (no_worker\<lparr>stop := True, notified := [NotifyAll awake_cv]\<rparr>)
     = Inr (no_worker\<lparr>stop := True, notified := [NotifyAll awake_cv, NotifyAll awake_cv]\<rparr>)"
proof -
  have c1: "close one_worker = Inr (one_worker\<lparr>stop := True, pond := [NotJoinable], notified := [NotifyAll awake_cv]\<rparr>)"
    by (simp add: one_worker_def close_def join_def worker.simps runnable_def
          worker_step_def pc_step_def set_pc_def notify_def wait_pred_def worker_wake_def)
  have c0: "close no_worker = Inr (no_worker\<lparr>stop := True, notified := [NotifyAll awake_cv]\<rparr>)"
    by (simp add: no_worker_def close_def notify_def)
  from close_then_close_or_destroy [OF c1] close_then_close_or_destroy [OF c0] c1 c0
  show ?thesis by (simp add: one_worker_def no_worker_def notify_def)
qed

subsection \<open>The thread number after close\<close>

text \<open>
  C2, as stated: after \<open>close()\<close>, \<open>getThreadNumb()\<close> returns 0. It fails on a pond
  constructed with two threads: \<open>close()\<close> never writes \<open>thread_numb\<close>, so the result is 2.
\<close>

theorem close_keeps_thread_numb_counterexample:
  "map_sum id getThreadNumb (and_then (DynamicThreadPond 2) close) = Inr 2"
  by (simp add: DynamicThreadPond_def close_def join_def worker.simps runnable_def
        worker_step_def pc_step_def set_pc_def notify_def getThreadNumb_def numeral_2_eq_2)

text \<open>
  C2, amended: after a completed \<open>close()\<close>, \<open>getThreadNumb()\<close> returns what it returned
  before the call.
\<close>

theorem close_keeps_thread_numb:
  assumes "close s = Inr s'"
  shows "getThreadNumb s' = getThreadNumb s"
  using close_frame [OF assms] by (simp add: getThreadNumb_def)

text \<open>C2, amended: the theorem at the pond \<open>one_worker\<close>.\<close>

theorem close_keeps_thread_numb_witness:
  "close one_worker = Inr (one_worker\<lparr>stop := True, pond := [NotJoinable], notified := [NotifyAll awake_cv]\<rparr>) \<and>
   getThreadNumb (one_worker\<lparr>stop := True, pond := [NotJoinable], notified := [NotifyAll awake_cv]\<rparr>) = 1 \<and>
   getThreadNumb one_worker = 1"
proof -
  have c1: "close one_worker = Inr (one_worker\<lparr>stop := True, pond := [NotJoinable], notified := [NotifyAll awake_cv]\<rparr>)"
    by (simp add: one_worker_def close_def join_def worker.simps runnable_def
          worker_step_def pc_step_def set_pc_def notify_def wait_pred_def worker_wake_def)
  from close_keeps_thread_numb [OF c1] c1
  show ?thesis by (simp add: one_worker_def getThreadNumb_def)
qed

subsection \<open>Batch submission\<close>

text \<open>The loop pushes the next \<open>n\<close> elements of the container, in their order.\<close>

lemma emplace_loop_take:
  "i + n \<le> length cont \<Longrightarrow>
     emplace_loop cont n i s = Inr (s\<lparr>shared_tq := shared_tq s @ take n (drop i cont)\<rparr>)"
proof (induction n arbitrary: i s)
  case 0
  then show ?case by simp
next
  case (Suc n)
  then have lt: "i < length cont" and le: "Suc i + n \<le> length cont" by simp_all
  have "take (Suc n) (drop i cont) = cont ! i # take n (drop (Suc i) cont)"
    using lt by (simp add: Cons_nth_drop_Suc [symmetric])
  with Suc.IH [OF le] lt show ?case by simp
qed

lemma submitInBatch_result:
  assumes "sz \<le> length cont"
  shows "submitInBatch cont sz s =
           Inr (s\<lparr>total_tasks := total_tasks s + of_nat sz,
                  shared_tq := shared_tq s @ take sz cont,
                  notified := notified s @ [NotifyAll awake_cv]\<rparr>)"
  using assms emplace_loop_take [of 0 sz cont] by (simp add: submitInBatch_def notify_def)

text \<open>Adding to a 32-bit counter, read as a signed value, when the sum does not wrap.\<close>

lemma sint_add_of_nat:
  fixes a :: "32 word"
  assumes "sint a + int n < 2 ^ 31"
  shows "sint (a + of_nat n) = sint a + int n"
proof -
  have "a + of_nat n = word_of_int (sint a + int n)"
    by simp
  then have "sint (a + of_nat n) = signed_take_bit 31 (sint a + int n)"
    by (simp only: sint_sbintrunc') simp
  moreover have "- (2 ^ 31) \<le> sint a + int n"
    using sint_ge [of a] by simp
  ultimately show ?thesis
    using assms by (simp add: signed_take_bit_int_eq_self)
qed




subsection \<open>Shrink takes priority in the worker loop\<close>

text \<open>
  C4: a worker that wakes from \<open>awake_cv.wait\<close> while \<open>shrink_numb\<close> is positive decrements
  \<open>shrink_numb\<close> by one, pushes its own index onto \<open>deleted_threads\<close> and leaves its loop;
  the task queue, \<open>total_tasks\<close> and \<open>task_loaded\<close> stay as they are, whatever the queue holds.
\<close>

theorem worker_shrink_priority:
  assumes "index < length (pond s)" and "pond s ! index = Joinable Waiting"
    and "0 < shrink_numb s"
  shows "worker_step index s =
           Inr (s\<lparr>shrink_numb := shrink_numb s - 1,
                  deleted_threads := deleted_threads s @ [index],
                  pond := (pond s)[index := Joinable Finished]\<rparr>)"
  using assms
  by (simp add: worker_step_def pc_step_def wait_pred_def worker_wake_def set_pc_def)

text \<open>C4: the theorem at worker 1 of the pond \<open>shrinking\<close>, whose queue is not empty.\<close>

theorem worker_shrink_priority_witness:
  "(1::nat) < length (pond shrinking) \<and> pond shrinking ! 1 = Joinable Waiting \<and>
   0 < shrink_numb shrinking \<and> shared_tq shrinking \<noteq> [] \<and>
   worker_step 1 shrinking =
     Inr (shrinking\<lparr>shrink_numb := 0, deleted_threads := [1],
            pond := [Joinable Waiting, Joinable Finished]\<rparr>)"
  using worker_shrink_priority [of 1 shrinking]
  by (simp add: shrinking_def)

subsection \<open>Shrinking\<close>

text \<open>
  C5: when \<open>0 \<le> n \<le> thread_numb\<close>, \<open>delThreads(n)\<close> adds \<open>n\<close> to \<open>shrink_numb\<close>, subtracts
  \<open>n\<close> from \<open>thread_numb\<close> and calls \<open>awake_cv.notify_all()\<close>; it joins no thread, so every
  handle in \<open>pond\<close> is as before. Otherwise the assertion fails; no value is clamped.
\<close>

theorem delThreads_shrinks:
  "(0 \<le> n \<and> n \<le> thread_numb s \<longrightarrow>
      delThreads n s =
        Inr (s\<lparr>shrink_numb := shrink_numb s + n, thread_numb := thread_numb s - n,
               notified := notified s @ [NotifyAll awake_cv]\<rparr>)) \<and>
   (\<not> (0 \<le> n \<and> n \<le> thread_numb s) \<longrightarrow> delThreads n s = Inl AssertionFailure)"
  by (auto simp: delThreads_def notify_def)

text \<open>C5: the theorem at the pond \<open>one_worker\<close>, for the requests 1, 2 and -1.\<close>

theorem delThreads_shrinks_witness:
  "delThreads 1 one_worker =
     Inr (one_worker\<lparr>shrink_numb := 1, thread_numb := 0, notified := [NotifyAll awake_cv]\<rparr>) \<and>
   pond one_worker = [Joinable Waiting] \<and>
   delThreads 2 one_worker = Inl AssertionFailure \<and>
   delThreads (- 1) one_worker = Inl AssertionFailure"
  using delThreads_shrinks [of 1 one_worker] delThreads_shrinks [of 2 one_worker]
    delThreads_shrinks [of "- 1" one_worker]
  by (simp add: one_worker_def)

subsection \<open>The completion barrier\<close>

text \<open>
  C8: \<open>waitForTasks\<close> sets \<open>waiting\<close> and waits for \<open>total_tasks = 0\<close>. When the counter is
  0 at the call it returns at once with \<open>waiting\<close> cleared; otherwise the caller is
  suspended with \<open>waiting\<close> set. On each signal the suspended caller evaluates the
  predicate again: it returns with \<open>waiting\<close> cleared when the counter is 0 and stays
  suspended otherwise.
\<close>

theorem waitForTasks_barrier:
  "(total_tasks s = 0 \<longrightarrow> waitForTasks s = Returned (s\<lparr>waiting := False\<rparr>)) \<and>
   (total_tasks s \<noteq> 0 \<longrightarrow> waitForTasks s = Suspended (s\<lparr>waiting := True\<rparr>)) \<and>
   (waiting s \<and> total_tasks s = 0 \<longrightarrow> waitForTasks_signalled s = Returned (s\<lparr>waiting := False\<rparr>)) \<and>
   (total_tasks s \<noteq> 0 \<longrightarrow> waitForTasks_signalled s = Suspended s)"
  by (simp add: waitForTasks_def waitForTasks_signalled_def drained_def)

text \<open>C8: the theorem at the pond \<open>one_worker\<close>, drained and not drained.\<close>

theorem waitForTasks_barrier_witness:
  "waitForTasks (one_worker\<lparr>total_tasks := 0, shared_tq := []\<rparr>) =
     Returned (one_worker\<lparr>total_tasks := 0, shared_tq := []\<rparr>) \<and>
   waitForTasks one_worker = Suspended (one_worker\<lparr>waiting := True\<rparr>) \<and>
   waitForTasks_signalled (one_worker\<lparr>waiting := True\<rparr>) = Suspended (one_worker\<lparr>waiting := True\<rparr>) \<and>
   waitForTasks_signalled (one_worker\<lparr>waiting := True, total_tasks := 0\<rparr>) =
     Returned (one_worker\<lparr>total_tasks := 0\<rparr>)"
  using waitForTasks_barrier [of "one_worker\<lparr>total_tasks := 0, shared_tq := []\<rparr>"]
    waitForTasks_barrier [of one_worker]
    waitForTasks_barrier [of "one_worker\<lparr>waiting := True\<rparr>"]
    waitForTasks_barrier [of "one_worker\<lparr>waiting := True, total_tasks := 0\<rparr>"]
  by (simp add: one_worker_def)

subsection \<open>The task counter\<close>

lemma count_list_update:
  "i < length xs \<Longrightarrow>
     length (filter P (xs[i := y])) + of_bool (P (xs ! i)) =
       length (filter P xs) + of_bool (P y)"
proof (induction xs arbitrary: i)
  case Nil
  then show ?case by simp
next
  case (Cons x xs)
  show ?case
  proof (cases i)
    case 0
    then show ?thesis by simp
  next
    case (Suc k)
    with Cons.prems have "k < length xs" by simp
    from Cons.IH [OF this] Suc show ?thesis by simp
  qed
qed

lemma in_flight_set_pc:
  "i < length (pond s) \<Longrightarrow>
     in_flight (set_pc i pc s) + of_bool (holds_task (pond s ! i)) =
       in_flight s + of_bool (holds_task (Joinable pc))"
  using count_list_update [of i "pond s" holds_task "Joinable pc"]
  by (simp add: in_flight_def set_pc_def)

text \<open>
  A worker step leaves the number of outstanding tasks as it is, except for the step
  \<open>--total_tasks\<close>, which takes one task off.
\<close>

lemma pc_step_outstanding:
  assumes "pc_step i pc s = Inr s'" and "i < length (pond s)" and "pond s ! i = Joinable pc"
  shows "if pc = Invoked
         then outstanding s = Suc (outstanding s') \<and> total_tasks s' = total_tasks s - 1
         else outstanding s' = outstanding s \<and> total_tasks s' = total_tasks s"
proof (cases pc)
  case Waiting
  with assms show ?thesis
    using in_flight_set_pc [of i "s\<lparr>shrink_numb := shrink_numb s - 1,
             deleted_threads := deleted_threads s @ [i]\<rparr>" Finished]
      in_flight_set_pc [of i s LoopHead]
      in_flight_set_pc [of i "s\<lparr>shared_tq := tl (shared_tq s)\<rparr>" "Dequeued (hd (shared_tq s))"]
    by (auto simp: pc_step_def worker_wake_def outstanding_def in_flight_def set_pc_def
          split: if_splits list.splits)
next
  case LoopHead
  with assms in_flight_set_pc [of i s] show ?thesis
    by (auto simp: pc_step_def outstanding_def in_flight_def set_pc_def)
next
  case (Dequeued t)
  with assms in_flight_set_pc [of i "s\<lparr>task_loaded := task_loaded s + 1\<rparr>" "Invoking t"]
  show ?thesis
    by (auto simp: pc_step_def outstanding_def in_flight_def set_pc_def)
next
  case (Invoking t)
  with assms in_flight_set_pc [of i s Invoked] in_flight_set_pc [of i s Unwound]
    in_flight_set_pc [of i "s\<lparr>channels := channels s @ [r]\<rparr>" Invoked for r]
  show ?thesis
    by (auto simp: pc_step_def outstanding_def in_flight_def set_pc_def
          split: invoke_result.splits option.splits)
next
  case Invoked
  with assms in_flight_set_pc [of i "s\<lparr>total_tasks := total_tasks s - 1\<rparr>" Notifying]
  show ?thesis
    by (auto simp: pc_step_def outstanding_def in_flight_def set_pc_def)
next
  case Notifying
  with assms in_flight_set_pc [of i s LoopHead]
    in_flight_set_pc [of i "notify (NotifyOne task_done_cv) s" LoopHead]
  show ?thesis
    by (auto simp: pc_step_def outstanding_def in_flight_def set_pc_def notify_def)
next
  case Finished
  with assms show ?thesis by (simp add: pc_step_def)
next
  case Unwound
  with assms show ?thesis by (simp add: pc_step_def)
qed

lemma pc_step_accounted:
  assumes "pc_step i pc s = Inr s'" and "i < length (pond s)" and "pond s ! i = Joinable pc"
    and "accounted s"
  shows "accounted s'"
  using pc_step_outstanding [OF assms(1-3)] assms(4)
  by (auto simp: accounted_def split: if_splits)

lemma worker_step_accounted:
  assumes "worker_step i s = Inr s'" and "accounted s"
  shows "accounted s'"
  using assms pc_step_accounted [of i _ s s']
  by (auto simp: worker_step_def split: if_splits thread.splits)

lemma worker_accounted:
  "worker i s = Inr s' \<Longrightarrow> accounted s \<Longrightarrow> accounted s'"
proof (induction i s rule: worker.induct)
  case (1 index s)
  show ?case
  proof (cases "runnable index s")
    case True
    with "1.prems" obtain s1 where st: "worker_step index s = Inr s1" and w: "worker index s1 = Inr s'"
      by (auto simp: worker.simps [of index s] split: sum.splits)
    from "1.IH" [OF True st w] worker_step_accounted [OF st] "1.prems" show ?thesis by simp
  next
    case False
    with "1.prems" show ?thesis
      by (auto simp: worker.simps [of index s] split: if_splits)
  qed
qed

lemma worker_returned:
  "worker i s = Inr s' \<Longrightarrow> i < length (pond s) \<Longrightarrow>
     pond s' ! i = Joinable Finished \<or> pond s' ! i = NotJoinable"
proof (induction i s rule: worker.induct)
  case (1 index s)
  show ?case
  proof (cases "runnable index s")
    case True
    with "1.prems" obtain s1 where st: "worker_step index s = Inr s1" and w: "worker index s1 = Inr s'"
      by (auto simp: worker.simps [of index s] split: sum.splits)
    from worker_step_frame [OF st] "1.prems" have "index < length (pond s1)" by simp
    from "1.IH" [OF True st w this] show ?thesis .
  next
    case False
    with "1.prems" show ?thesis
      by (auto simp: worker.simps [of index s] runnable_def split: if_splits thread.splits)
  qed
qed

lemma join_accounted:
  assumes "join i s = Inr s'" and "accounted s"
  shows "accounted s'"
proof -
  from assms(1) obtain s1 where lt: "i < length (pond s)" and w: "worker i s = Inr s1"
    and s': "s' = s1\<lparr>pond := (pond s1)[i := NotJoinable]\<rparr>"
    by (auto simp: join_def split: if_splits thread.splits sum.splits)
  from worker_frame [OF w] lt have lt1: "i < length (pond s1)" by simp
  from worker_returned [OF w lt] have "\<not> holds_task (pond s1 ! i)" by auto
  with count_list_update [OF lt1, of holds_task NotJoinable]
  have "in_flight s' = in_flight s1" by (simp add: in_flight_def s')
  with worker_accounted [OF w assms(2)] show ?thesis
    by (simp add: accounted_def outstanding_def s')
qed

lemma join_loop_accounted:
  "join_loop n i s = Inr s' \<Longrightarrow> accounted s \<Longrightarrow> accounted s'"
  by (induction n arbitrary: i s) (auto split: sum.splits dest: join_accounted)

lemma close_accounted:
  assumes "close s = Inr s'" and "accounted s"
  shows "accounted s'"
proof -
  from assms(2) have "accounted (notify (NotifyAll awake_cv) (s\<lparr>stop := True\<rparr>))"
    by (simp add: accounted_def outstanding_def in_flight_def notify_def)
  with assms(1) show ?thesis
    unfolding close_def by (rule join_loop_accounted)
qed

lemma addThreads_iteration_accounted:
  assumes "addThreads_iteration s = Inr s'" and "accounted s"
  shows "accounted s'"
proof (cases "deleted_threads s")
  case Nil
  with assms show ?thesis
    by (auto simp: addThreads_iteration_def accounted_def outstanding_def in_flight_def)
next
  case (Cons idx rest)
  with assms(1) obtain s1 where j: "join idx (s\<lparr>deleted_threads := rest\<rparr>) = Inr s1"
    and s': "s' = s1\<lparr>pond := (pond s1)[idx := Joinable LoopHead],
                 thread_numb := thread_numb s1 + 1\<rparr>"
    by (auto simp: addThreads_iteration_def split: sum.splits)
  from assms(2) have "accounted (s\<lparr>deleted_threads := rest\<rparr>)"
    by (simp add: accounted_def outstanding_def in_flight_def)
  from join_accounted [OF j this] have a1: "accounted s1" .
  from j have lt: "idx < length (pond s1)"
    using join_frame [OF j] by (auto simp: join_def split: if_splits)
  from join_frame [OF j] have "\<not> holds_task (pond s1 ! idx)" by simp
  with count_list_update [OF lt, of holds_task "Joinable LoopHead"] a1
  show ?thesis
    by (simp add: accounted_def outstanding_def in_flight_def s')
qed

lemma addThreads_loop_accounted:
  "addThreads_loop n s = Inr s' \<Longrightarrow> accounted s \<Longrightarrow> accounted s'"
  by (induction n arbitrary: s) (auto split: sum.splits dest: addThreads_iteration_accounted)

lemma emplace_loop_frame:
  "emplace_loop cont n i s = Inr s' \<Longrightarrow> s' = s\<lparr>shared_tq := shared_tq s'\<rparr>"
proof (induction n arbitrary: i s)
  case 0
  then show ?case by simp
next
  case (Suc n)
  then have l: "emplace_loop cont n (Suc i) (s\<lparr>shared_tq := shared_tq s @ [cont ! i]\<rparr>) = Inr s'"
    by (simp split: if_splits)
  from Suc.IH [OF l] show ?case by simp
qed

lemma emplace_loop_queue:
  "emplace_loop cont n i s = Inr s' \<Longrightarrow>
     length (shared_tq s') = length (shared_tq s) + n \<and> pond s' = pond s \<and>
     total_tasks s' = total_tasks s \<and> deleted_threads s' = deleted_threads s"
  by (induction n arbitrary: i s) (auto split: if_splits)

lemma step_accounted:
  assumes "step ev s = Inr s'" and "accounted s"
  shows "accounted s'"
proof (cases ev)
  case (Work i)
  with assms show ?thesis by (auto dest: worker_step_accounted)
next
  case (Submit foo)
  with assms show ?thesis
    by (auto simp: submit_def notify_def accounted_def outstanding_def in_flight_def)
next
  case (SubmitForReturn foo)
  with assms show ?thesis
    by (auto simp: submitForReturn_def notify_def accounted_def outstanding_def in_flight_def)
next
  case (SubmitInBatch cont n)
  with assms obtain s1 where
    e: "emplace_loop cont n 0 (s\<lparr>total_tasks := total_tasks s + of_nat n\<rparr>) = Inr s1"
    and s': "s' = notify (NotifyAll awake_cv) s1"
    by (auto simp: submitInBatch_def split: sum.splits)
  from emplace_loop_queue [OF e] assms(2) show ?thesis
    by (simp add: s' notify_def accounted_def outstanding_def in_flight_def)
next
  case (AddThreads n)
  with assms show ?thesis
    by (auto simp: addThreads_def split: if_splits dest: addThreads_loop_accounted)
next
  case AddThreadsIteration
  with assms show ?thesis by (auto dest: addThreads_iteration_accounted)
next
  case (DelThreads n)
  with assms show ?thesis
    by (auto simp: delThreads_def notify_def accounted_def outstanding_def in_flight_def
          split: if_splits)
next
  case (AdjustThreads n)
  with assms show ?thesis
    by (auto simp: adjustThreads_def addThreads_def delThreads_def notify_def
          split: if_splits dest: addThreads_loop_accounted)
       (auto simp: accounted_def outstanding_def in_flight_def)
next
  case WaitForTasks
  with assms show ?thesis
    by (auto simp: waitForTasks_def waitForTasks_signalled_def accounted_def
          outstanding_def in_flight_def split: if_splits)
next
  case ResetTaskLoaded
  with assms show ?thesis
    by (auto simp: resetTaskLoaded_def accounted_def outstanding_def in_flight_def)
next
  case Close
  with assms show ?thesis by (auto dest: close_accounted)
qed

lemma run_accounted:
  "run evs s = Inr s' \<Longrightarrow> accounted s \<Longrightarrow> accounted s'"
  by (induction evs arbitrary: s) (auto split: sum.splits dest: step_accounted)

lemma DynamicThreadPond_accounted:
  "DynamicThreadPond n = Inr s \<Longrightarrow> accounted s"
  by (auto simp: DynamicThreadPond_def accounted_def outstanding_def in_flight_def
        split: if_splits)

lemma worker_step_counter:
  assumes "worker_step i s = Inr s'"
  shows "total_tasks s' =
           (if i < length (pond s) \<and> pond s ! i = Joinable Invoked
            then total_tasks s - 1 else total_tasks s)"
proof (cases "i < length (pond s)")
  case False
  with assms show ?thesis by (simp add: worker_step_def)
next
  case True
  show ?thesis
  proof (cases "pond s ! i")
    case NotJoinable
    with True assms show ?thesis by (simp add: worker_step_def)
  next
    case (Joinable pc)
    with True assms have "pc_step i pc s = Inr s'" by (simp add: worker_step_def)
    from pc_step_outstanding [OF this True Joinable] True Joinable show ?thesis
      by (auto split: if_splits)
  qed
qed

text \<open>
  C7, amended: in every state that a run of worker steps and calls reaches from a
  constructed pond, \<open>total_tasks\<close> is, as a 32-bit word, the number of queued tasks plus
  the number of tasks that a worker has dequeued and not yet taken off the counter;
  \<open>getTasksRemain()\<close> reads exactly this number, which is not negative, whenever it is below
  \<open>2^31\<close>. A worker step changes the counter only at \<open>--total_tasks\<close>, after the task has
  run; the dequeue and every other step leave it as it is. \<open>submit\<close> and
  \<open>submitForReturn\<close> add one to the counter with the task they enqueue, \<open>submitInBatch\<close>
  adds the batch size with the batch.
\<close>

theorem total_tasks_counts_queued_and_running:
  assumes "DynamicThreadPond n = Inr s0" and "run evs s0 = Inr s"
  shows "total_tasks s = of_nat (length (shared_tq s) + in_flight s) \<and>
         (length (shared_tq s) + in_flight s < 2 ^ 31 \<longrightarrow>
            getTasksRemain s = int (length (shared_tq s) + in_flight s) \<and>
            0 \<le> getTasksRemain s) \<and>
         (\<forall>i s'. worker_step i s = Inr s' \<longrightarrow>
            total_tasks s' =
              (if i < length (pond s) \<and> pond s ! i = Joinable Invoked
               then total_tasks s - 1 else total_tasks s)) \<and>
         (\<forall>foo. total_tasks (submit foo s) = total_tasks s + 1 \<and>
            shared_tq (submit foo s) = shared_tq s @ [Plain foo]) \<and>
         (\<forall>foo. total_tasks (submitForReturn foo s) = total_tasks s + 1 \<and>
            shared_tq (submitForReturn foo s) = shared_tq s @ [Packaged foo]) \<and>
         (\<forall>cont sz. sz \<le> length cont \<longrightarrow>
            (\<exists>s'. submitInBatch cont sz s = Inr s' \<and>
               total_tasks s' = total_tasks s + of_nat sz \<and>
               shared_tq s' = shared_tq s @ take sz cont))"
proof -
  have sub: "total_tasks (submit foo s) = total_tasks s + 1 \<and>
            shared_tq (submit foo s) = shared_tq s @ [Plain foo]" for foo
    by (simp add: submit_def notify_def)
  have subr: "total_tasks (submitForReturn foo s) = total_tasks s + 1 \<and>
            shared_tq (submitForReturn foo s) = shared_tq s @ [Packaged foo]" for foo
    by (simp add: submitForReturn_def notify_def)
  have batch: "\<exists>s'. submitInBatch cont sz s = Inr s' \<and>
               total_tasks s' = total_tasks s + of_nat sz \<and>
               shared_tq s' = shared_tq s @ take sz cont" if "sz \<le> length cont" for cont sz
    by (simp add: submitInBatch_result [OF that])
  from run_accounted [OF assms(2) DynamicThreadPond_accounted [OF assms(1)]]
  have t: "total_tasks s = of_nat (length (shared_tq s) + in_flight s)"
    by (simp add: accounted_def outstanding_def)
  have "getTasksRemain s = int (length (shared_tq s) + in_flight s)"
    if "length (shared_tq s) + in_flight s < 2 ^ 31"
    using that sint_add_of_nat [of 0 "length (shared_tq s) + in_flight s"] t
    by (simp add: getTasksRemain_def)
  with t worker_step_counter sub subr batch show ?thesis by simp
qed

text \<open>
  C7, amended: the theorem at a run with a \<open>submit\<close> and a batch, which leaves two tasks
  queued and one running, and at the two steps of the worker that follow.
\<close>

theorem total_tasks_counts_queued_and_running_witness:
  "DynamicThreadPond 1 = Inr idle1 \<and>
   run [Submit Returns, SubmitInBatch [Packaged Raises, Plain Returns] 2,
        Work 0, Work 0, Work 0] idle1 = Inr batch1 \<and>
   length (shared_tq batch1) + in_flight batch1 < 2 ^ 31 \<and>
   total_tasks batch1 = 3 \<and> getTasksRemain batch1 = 3 \<and>
   length (shared_tq batch1) = 2 \<and> in_flight batch1 = 1 \<and>
   worker_step 0 batch1 = Inr (batch1\<lparr>pond := [Joinable Invoked]\<rparr>) \<and>
   worker_step 0 (batch1\<lparr>pond := [Joinable Invoked]\<rparr>) =
     Inr (batch1\<lparr>pond := [Joinable Notifying], total_tasks := 2\<rparr>)"
proof -
  have h1: "DynamicThreadPond 1 = Inr idle1"
    by (simp add: DynamicThreadPond_def idle1_def)
  have h2: "run [Submit Returns, SubmitInBatch [Packaged Raises, Plain Returns] 2,
        Work 0, Work 0, Work 0] idle1 = Inr batch1"
    by (simp add: idle1_def batch1_def submit_def submitInBatch_def numeral_2_eq_2 notify_def
          worker_step_def pc_step_def set_pc_def wait_pred_def worker_wake_def)
  have h3: "length (shared_tq batch1) + in_flight batch1 < 2 ^ 31"
    by (simp add: batch1_def in_flight_def)
  have w1: "worker_step 0 batch1 = Inr (batch1\<lparr>pond := [Joinable Invoked]\<rparr>)"
    by (simp add: batch1_def worker_step_def pc_step_def set_pc_def)
  have w2: "worker_step 0 (batch1\<lparr>pond := [Joinable Invoked]\<rparr>) =
     Inr (batch1\<lparr>pond := [Joinable Notifying], total_tasks := 2\<rparr>)"
    by (simp add: batch1_def worker_step_def pc_step_def set_pc_def)
  from total_tasks_counts_queued_and_running [OF h1 h2] h3
  have "getTasksRemain batch1 = int (length (shared_tq batch1) + in_flight batch1)"
    by blast
  with h1 h2 h3 w1 w2 show ?thesis by (simp add: batch1_def in_flight_def)
qed

text \<open>
  C7, as stated: \<open>total_tasks\<close> is never negative. It fails after one batch of \<open>2^31\<close> tasks
  submitted to a pond constructed with one thread: the 32-bit counter wraps and
  \<open>getTasksRemain()\<close> reads -2147483648.
\<close>

theorem total_tasks_negative_counterexample:
  "map_sum id getTasksRemain
     (and_then (DynamicThreadPond 1)
        (run [SubmitInBatch (replicate 2147483648 (Plain Returns)) 2147483648])) =
     Inr (- 2147483648)"
proof -
  have "(2147483648::nat) \<le> length (replicate 2147483648 (Plain Returns))" by simp
  from submitInBatch_result [OF this]
  show ?thesis by (simp add: getTasksRemain_def DynamicThreadPond_def)
qed

subsection \<open>A task that throws\<close>

lemma unwound_worker_step:
  "unwound i s \<Longrightarrow> worker_step i s = Inl Terminate"
  by (simp add: unwound_def worker_step_def pc_step_def)

lemma unwound_worker:
  "unwound i s \<Longrightarrow> worker i s = Inl Terminate"
  by (simp add: worker.simps [of i s] unwound_worker_step)
     (simp add: unwound_def runnable_def)

lemma unwound_join:
  "unwound i s \<Longrightarrow> join i s = Inl Terminate"
  using unwound_worker [of i s] by (simp add: join_def unwound_def)

lemma worker_step_keeps_unwound:
  assumes "worker_step j s = Inr s'" and "unwound i s"
  shows "unwound i s'"
proof (cases "j = i")
  case True
  with assms unwound_worker_step [of i s] show ?thesis by simp
next
  case False
  with worker_step_frame [OF assms(1)] assms(2) show ?thesis
    by (simp add: unwound_def)
qed

lemma join_keeps_unwound:
  assumes "join j s = Inr s'" and "unwound i s"
  shows "unwound i s'"
proof (cases "j = i")
  case True
  with assms unwound_join [of i s] show ?thesis by simp
next
  case False
  with join_frame [OF assms(1)] assms(2) show ?thesis
    by (simp add: unwound_def)
qed

lemma join_loop_keeps_unwound:
  "join_loop n k s = Inr s' \<Longrightarrow> unwound i s \<Longrightarrow> unwound i s'"
  by (induction n arbitrary: k s) (auto split: sum.splits dest: join_keeps_unwound)

lemma close_keeps_unwound:
  assumes "close s = Inr s'" and "unwound i s"
  shows "unwound i s'"
proof -
  from assms(2) have "unwound i (notify (NotifyAll awake_cv) (s\<lparr>stop := True\<rparr>))"
    by (simp add: unwound_def notify_def)
  with assms(1) show ?thesis
    unfolding close_def by (rule join_loop_keeps_unwound)
qed

lemma addThreads_iteration_keeps_unwound:
  assumes "addThreads_iteration s = Inr s'" and "unwound i s"
  shows "unwound i s'"
proof (cases "deleted_threads s")
  case Nil
  with assms show ?thesis
    by (auto simp: addThreads_iteration_def unwound_def nth_append)
next
  case (Cons idx rest)
  with assms(1) obtain s1 where j: "join idx (s\<lparr>deleted_threads := rest\<rparr>) = Inr s1"
    and s': "s' = s1\<lparr>pond := (pond s1)[idx := Joinable LoopHead],
                 thread_numb := thread_numb s1 + 1\<rparr>"
    by (auto simp: addThreads_iteration_def split: sum.splits)
  from assms(2) have "unwound i (s\<lparr>deleted_threads := rest\<rparr>)"
    by (simp add: unwound_def)
  from join_keeps_unwound [OF j this] have u1: "unwound i s1" .
  from join_frame [OF j] u1 have "idx \<noteq> i" by (auto simp: unwound_def)
  with u1 show ?thesis by (simp add: unwound_def s')
qed

lemma addThreads_loop_keeps_unwound:
  "addThreads_loop n s = Inr s' \<Longrightarrow> unwound i s \<Longrightarrow> unwound i s'"
  by (induction n arbitrary: s)
     (auto split: sum.splits dest: addThreads_iteration_keeps_unwound)

lemma step_keeps_unwound:
  assumes "step ev s = Inr s'" and "unwound i s"
  shows "unwound i s'"
proof (cases ev)
  case (Work j)
  with assms show ?thesis by (auto dest: worker_step_keeps_unwound)
next
  case (SubmitInBatch cont n)
  with assms obtain s1 where
    e: "emplace_loop cont n 0 (s\<lparr>total_tasks := total_tasks s + of_nat n\<rparr>) = Inr s1"
    and s': "s' = notify (NotifyAll awake_cv) s1"
    by (auto simp: submitInBatch_def split: sum.splits)
  from emplace_loop_queue [OF e] assms(2) show ?thesis
    by (simp add: s' notify_def unwound_def)
next
  case (AddThreads n)
  with assms show ?thesis
    by (auto simp: addThreads_def split: if_splits dest: addThreads_loop_keeps_unwound)
next
  case AddThreadsIteration
  with assms show ?thesis by (auto dest: addThreads_iteration_keeps_unwound)
next
  case (AdjustThreads n)
  with assms show ?thesis
    by (auto simp: adjustThreads_def addThreads_def delThreads_def notify_def
          split: if_splits dest: addThreads_loop_keeps_unwound)
       (auto simp: unwound_def)
next
  case Close
  with assms show ?thesis by (auto dest: close_keeps_unwound)
qed (use assms in \<open>auto simp: submit_def submitForReturn_def delThreads_def notify_def
      waitForTasks_def waitForTasks_signalled_def resetTaskLoaded_def unwound_def
      split: if_splits\<close>)

lemma run_keeps_unwound:
  "run evs s = Inr s' \<Longrightarrow> unwound i s \<Longrightarrow> unwound i s'"
  by (induction evs arbitrary: s) (auto split: sum.splits dest: step_keeps_unwound)

lemma unwound_in_flight:
  assumes "unwound i s"
  shows "0 < in_flight s"
proof -
  from assms have "i < length (pond s)" and "holds_task (pond s ! i)"
    by (simp_all add: unwound_def)
  then have "pond s ! i \<in> set (filter holds_task (pond s))" by simp
  then show ?thesis unfolding in_flight_def by (metis length_pos_if_in_set)
qed

lemma of_nat_32_nonzero:
  assumes "0 < k" and "k < 2 ^ 32"
  shows "(of_nat k :: 32 word) \<noteq> 0"
  using assms by (simp add: word_of_nat_eq_0_iff nat_dvd_not_less)

text \<open>
  C10, amended: take a state reached from a constructed pond in which a worker is about
  to invoke a task. If the task is a plain one that throws, the worker's step leaves
  \<open>worker\<close> through the exception without reaching \<open>--total_tasks\<close>. In every state the
  pond reaches after that step the worker is still out of its loop with
  \<open>std::terminate\<close> as its only step left, the failed task is still counted in
  \<open>total_tasks\<close>, and the predicate of \<open>waitForTasks\<close> is false as long as fewer than \<open>2^32\<close>
  tasks are outstanding. If the task was submitted with \<open>submitForReturn\<close>, the failure is
  stored in the channel, the worker goes on and decrements \<open>total_tasks\<close>.
\<close>

theorem failed_task_stays_counted:
  assumes "DynamicThreadPond n = Inr s0" and "run evs s0 = Inr s"
    and "index < length (pond s)" and "pond s ! index = Joinable (Invoking t)"
  shows "(t = Plain Raises \<longrightarrow>
            (\<exists>s1. worker_step index s = Inr s1 \<and> total_tasks s1 = total_tasks s \<and>
               pond s1 ! index = Joinable Unwound \<and>
               (\<forall>evs' s'. run evs' s1 = Inr s' \<longrightarrow>
                  pond s' ! index = Joinable Unwound \<and>
                  worker_step index s' = Inl Terminate \<and>
                  0 < in_flight s' \<and>
                  total_tasks s' = of_nat (length (shared_tq s') + in_flight s') \<and>
                  (length (shared_tq s') + in_flight s' < 2 ^ 32 \<longrightarrow> \<not> drained s')))) \<and>
         (t = Packaged Raises \<longrightarrow>
            (\<exists>s1 s2. worker_step index s = Inr s1 \<and> channels s1 = channels s @ [Failure] \<and>
               total_tasks s1 = total_tasks s \<and>
               worker_step index s1 = Inr s2 \<and> total_tasks s2 = total_tasks s - 1))"
proof -
  have acc: "accounted s"
    using run_accounted [OF assms(2) DynamicThreadPond_accounted [OF assms(1)]] .
  have plain: "\<exists>s1. worker_step index s = Inr s1 \<and> total_tasks s1 = total_tasks s \<and>
               pond s1 ! index = Joinable Unwound \<and>
               (\<forall>evs' s'. run evs' s1 = Inr s' \<longrightarrow>
                  pond s' ! index = Joinable Unwound \<and>
                  worker_step index s' = Inl Terminate \<and>
                  0 < in_flight s' \<and>
                  total_tasks s' = of_nat (length (shared_tq s') + in_flight s') \<and>
                  (length (shared_tq s') + in_flight s' < 2 ^ 32 \<longrightarrow> \<not> drained s'))"
    if t: "t = Plain Raises"
  proof -
    let ?s1 = "set_pc index Unwound s"
    from assms(3,4) t have st: "worker_step index s = Inr ?s1"
      by (simp add: worker_step_def pc_step_def)
    from assms(3) have u: "unwound index ?s1" by (simp add: unwound_def set_pc_def)
    from worker_step_accounted [OF st acc] have acc1: "accounted ?s1" .
    have "pond s' ! index = Joinable Unwound \<and>
          worker_step index s' = Inl Terminate \<and>
          0 < in_flight s' \<and>
          total_tasks s' = of_nat (length (shared_tq s') + in_flight s') \<and>
          (length (shared_tq s') + in_flight s' < 2 ^ 32 \<longrightarrow> \<not> drained s')"
      if r: "run evs' ?s1 = Inr s'" for evs' s'
    proof -
      from run_keeps_unwound [OF r u] have u': "unwound index s'" .
      from run_accounted [OF r acc1]
      have tt: "total_tasks s' = of_nat (length (shared_tq s') + in_flight s')"
        by (simp add: accounted_def outstanding_def)
      from unwound_in_flight [OF u'] have pos: "0 < in_flight s'" .
      have "\<not> drained s'" if "length (shared_tq s') + in_flight s' < 2 ^ 32"
        using of_nat_32_nonzero [OF _ that] pos tt by (simp add: drained_def)
      with u' unwound_worker_step [OF u'] pos tt show ?thesis
        by (simp add: unwound_def)
    qed
    moreover have "total_tasks ?s1 = total_tasks s" and "pond ?s1 ! index = Joinable Unwound"
      using assms(3) by (simp_all add: set_pc_def)
    ultimately show ?thesis using st by blast
  qed
  have packaged: "\<exists>s1 s2. worker_step index s = Inr s1 \<and> channels s1 = channels s @ [Failure] \<and>
               total_tasks s1 = total_tasks s \<and>
               worker_step index s1 = Inr s2 \<and> total_tasks s2 = total_tasks s - 1"
    if t: "t = Packaged Raises"
    using assms(3,4) t by (simp add: worker_step_def pc_step_def set_pc_def)
  from plain packaged show ?thesis by blast
qed

text \<open>
  C10, amended: the theorem at the pond \<open>throwing1\<close>, followed after the throw by a call
  of \<open>waitForTasks\<close> and a \<open>submit\<close>, and at the pond \<open>capturing1\<close>.
\<close>

theorem failed_task_stays_counted_witness:
  "DynamicThreadPond 1 = Inr idle1 \<and>
   run [Submit Raises, Work 0, Work 0, Work 0] idle1 = Inr throwing1 \<and>
   pond throwing1 ! 0 = Joinable (Invoking (Plain Raises)) \<and>
   worker_step 0 throwing1 = Inr (throwing1\<lparr>pond := [Joinable Unwound]\<rparr>) \<and>
   run [WaitForTasks, Submit Returns] (throwing1\<lparr>pond := [Joinable Unwound]\<rparr>) =
     Inr (throwing1\<lparr>pond := [Joinable Unwound], waiting := True, total_tasks := 2,
            shared_tq := [Plain Returns],
            notified := [NotifyOne awake_cv, NotifyOne awake_cv]\<rparr>) \<and>
   \<not> drained (throwing1\<lparr>pond := [Joinable Unwound], waiting := True, total_tasks := 2,
            shared_tq := [Plain Returns],
            notified := [NotifyOne awake_cv, NotifyOne awake_cv]\<rparr>) \<and>
   worker_step 0 (throwing1\<lparr>pond := [Joinable Unwound], waiting := True, total_tasks := 2,
            shared_tq := [Plain Returns],
            notified := [NotifyOne awake_cv, NotifyOne awake_cv]\<rparr>) = Inl Terminate \<and>
   run [SubmitForReturn Raises, Work 0, Work 0, Work 0] idle1 = Inr capturing1 \<and>
   run [Work 0, Work 0] capturing1 =
     Inr (capturing1\<lparr>pond := [Joinable Notifying], channels := [Failure], total_tasks := 0\<rparr>)"
proof -
  let ?after = "throwing1\<lparr>pond := [Joinable Unwound], waiting := True, total_tasks := 2,
            shared_tq := [Plain Returns],
            notified := [NotifyOne awake_cv, NotifyOne awake_cv]\<rparr>"
  have h1: "DynamicThreadPond 1 = Inr idle1"
    by (simp add: DynamicThreadPond_def idle1_def)
  have h2: "run [Submit Raises, Work 0, Work 0, Work 0] idle1 = Inr throwing1"
    by (simp add: idle1_def throwing1_def submit_def notify_def
          worker_step_def pc_step_def set_pc_def wait_pred_def worker_wake_def)
  have h3: "run [SubmitForReturn Raises, Work 0, Work 0, Work 0] idle1 = Inr capturing1"
    by (simp add: idle1_def capturing1_def submitForReturn_def notify_def
          worker_step_def pc_step_def set_pc_def wait_pred_def worker_wake_def)
  have w: "worker_step 0 throwing1 = Inr (throwing1\<lparr>pond := [Joinable Unwound]\<rparr>)"
    by (simp add: throwing1_def worker_step_def pc_step_def set_pc_def)
  have h4: "run [WaitForTasks, Submit Returns] (throwing1\<lparr>pond := [Joinable Unwound]\<rparr>) =
              Inr ?after"
    by (simp add: throwing1_def waitForTasks_def waitForTasks_signalled_def drained_def
          submit_def notify_def)
  have i1: "(0::nat) < length (pond throwing1)" "pond throwing1 ! 0 = Joinable (Invoking (Plain Raises))"
    by (simp_all add: throwing1_def)
  have i2: "(0::nat) < length (pond capturing1)" "pond capturing1 ! 0 = Joinable (Invoking (Packaged Raises))"
    by (simp_all add: capturing1_def)
  have b: "length (shared_tq ?after) + in_flight ?after < 2 ^ 32"
    by (simp add: throwing1_def in_flight_def)
  from failed_task_stays_counted [OF h1 h2 i1] w
  have "\<forall>evs' s'. run evs' (throwing1\<lparr>pond := [Joinable Unwound]\<rparr>) = Inr s' \<longrightarrow>
                  pond s' ! 0 = Joinable Unwound \<and>
                  worker_step 0 s' = Inl Terminate \<and>
                  0 < in_flight s' \<and>
                  total_tasks s' = of_nat (length (shared_tq s') + in_flight s') \<and>
                  (length (shared_tq s') + in_flight s' < 2 ^ 32 \<longrightarrow> \<not> drained s')"
    by simp
  with h4 b have c: "\<not> drained ?after" and d: "worker_step 0 ?after = Inl Terminate"
    by blast+
  from failed_task_stays_counted [OF h1 h3 i2]
  have "\<exists>s1 s2. worker_step 0 capturing1 = Inr s1 \<and> channels s1 = channels capturing1 @ [Failure] \<and>
               total_tasks s1 = total_tasks capturing1 \<and>
               worker_step 0 s1 = Inr s2 \<and> total_tasks s2 = total_tasks capturing1 - 1"
    by simp
  then have e: "run [Work 0, Work 0] capturing1 =
     Inr (capturing1\<lparr>pond := [Joinable Notifying], channels := [Failure], total_tasks := 0\<rparr>)"
    by (simp add: capturing1_def worker_step_def pc_step_def set_pc_def)
  from h1 h2 h3 h4 i1 w c d e show ?thesis by simp
qed

text \<open>
  C10, as stated: after the failure the predicate of \<open>waitForTasks\<close> can never be true.
  It fails when the counter wraps: while the worker of a pond with one thread invokes a
  throwing task, a batch of \<open>2^32 - 1\<close> tasks takes \<open>total_tasks\<close> from 1 to 0; after the
  throw the worker is out of its loop and the predicate \<open>total_tasks == 0\<close> holds.
\<close>

theorem drained_after_failure_counterexample:
  "map_sum id drained
     (and_then (DynamicThreadPond 1)
        (run [Submit Raises, Work 0, Work 0, Work 0,
              SubmitInBatch (replicate 4294967295 (Plain Returns)) 4294967295,
              Work 0])) = Inr True \<and>
   map_sum id pond
     (and_then (DynamicThreadPond 1)
        (run [Submit Raises, Work 0, Work 0, Work 0,
              SubmitInBatch (replicate 4294967295 (Plain Returns)) 4294967295,
              Work 0])) = Inr [Joinable Unwound]"
proof -
  have "(4294967295::nat) \<le> length (replicate 4294967295 (Plain Returns))" by simp
  note b = submitInBatch_result [OF this]
  show ?thesis
    by (simp add: DynamicThreadPond_def submit_def notify_def b drained_def
          worker_step_def pc_step_def set_pc_def wait_pred_def worker_wake_def)
qed

subsection \<open>Growing\<close>

lemma join_finished:
  assumes "idx < length (pond s)" and "pond s ! idx = Joinable Finished"
  shows "join idx s = Inr (s\<lparr>pond := (pond s)[idx := NotJoinable]\<rparr>)"
  using assms by (simp add: join_def worker.simps [of idx s] runnable_def)


lemma pc_step_joinable:
  assumes "pc_step i pc s = Inr s'" and "i < length (pond s)" and "pond s ! i = Joinable pc"
  shows "pond s' ! i \<noteq> NotJoinable"
  using assms
  by (cases pc)
     (auto simp: pc_step_def set_pc_def worker_wake_def notify_def
        split: if_splits list.splits invoke_result.splits option.splits)

lemma worker_joined:
  "worker i s = Inr s' \<Longrightarrow> i < length (pond s) \<Longrightarrow> pond s ! i \<noteq> NotJoinable \<Longrightarrow>
     pond s' ! i = Joinable Finished"
proof (induction i s rule: worker.induct)
  case (1 index s)
  show ?case
  proof (cases "runnable index s")
    case True
    with "1.prems" obtain s1 where st: "worker_step index s = Inr s1" and w: "worker index s1 = Inr s'"
      by (auto simp: worker.simps [of index s] split: sum.splits)
    from worker_step_frame [OF st] "1.prems" have lt: "index < length (pond s1)" by simp
    from st "1.prems"(2,3) have "pond s1 ! index \<noteq> NotJoinable"
      using pc_step_joinable [of index _ s s1]
      by (auto simp: worker_step_def split: thread.splits)
    from "1.IH" [OF True st w lt this] show ?thesis .
  next
    case False
    with "1.prems" show ?thesis
      by (auto simp: worker.simps [of index s] runnable_def split: if_splits thread.splits)
  qed
qed

text \<open>What a pass that returns has done when the recycle queue was not empty.\<close>

lemma addThreads_iteration_recycled:
  assumes "deleted_threads s = idx # rest" and "addThreads_iteration s = Inr s'"
  shows "idx < length (pond s) \<and> pond s ! idx \<noteq> NotJoinable \<and>
         (\<exists>s1. worker idx (s\<lparr>deleted_threads := rest\<rparr>) = Inr s1 \<and>
               pond s1 ! idx = Joinable Finished \<and>
               s' = s1\<lparr>pond := (pond s1)[idx := Joinable LoopHead],
                       thread_numb := thread_numb s1 + 1\<rparr>) \<and>
         length (pond s') = length (pond s)"
proof -
  let ?s0 = "s\<lparr>deleted_threads := rest\<rparr>"
  from assms obtain s2 where j: "join idx ?s0 = Inr s2"
    and s': "s' = s2\<lparr>pond := (pond s2)[idx := Joinable LoopHead],
                     thread_numb := thread_numb s2 + 1\<rparr>"
    by (auto simp: addThreads_iteration_def split: sum.splits)
  from j obtain s1 where lt: "idx < length (pond s)" and nj: "pond s ! idx \<noteq> NotJoinable"
    and w: "worker idx ?s0 = Inr s1" and s2: "s2 = s1\<lparr>pond := (pond s1)[idx := NotJoinable]\<rparr>"
    by (auto simp: join_def split: if_splits thread.splits sum.splits)
  from worker_joined [OF w] lt nj have fin: "pond s1 ! idx = Joinable Finished" by simp
  from worker_frame [OF w] have len: "length (pond s1) = length (pond s)" by simp
  from s' s2 have "s' = s1\<lparr>pond := (pond s1)[idx := Joinable LoopHead],
                       thread_numb := thread_numb s1 + 1\<rparr>"
    by simp
  with lt nj w fin len show ?thesis by auto
qed

lemma addThreads_iteration_grows:
  assumes "addThreads_iteration s = Inr s'"
  shows "thread_numb s' = thread_numb s + 1 \<and> length (pond s) \<le> length (pond s')"
proof (cases "deleted_threads s")
  case Nil
  with assms show ?thesis by (auto simp: addThreads_iteration_def)
next
  case (Cons idx rest)
  from addThreads_iteration_recycled [OF Cons assms] obtain s1 where
    w: "worker idx (s\<lparr>deleted_threads := rest\<rparr>) = Inr s1"
    and s': "s' = s1\<lparr>pond := (pond s1)[idx := Joinable LoopHead],
                     thread_numb := thread_numb s1 + 1\<rparr>"
    and len: "length (pond s') = length (pond s)"
    by blast
  from worker_frame [OF w] s' len show ?thesis by simp
qed

lemma addThreads_loop_grows:
  "addThreads_loop n s = Inr s' \<Longrightarrow>
     thread_numb s' = thread_numb s + int n \<and> length (pond s) \<le> length (pond s')"
proof (induction n arbitrary: s)
  case 0
  then show ?case by simp
next
  case (Suc n)
  then obtain s1 where i: "addThreads_iteration s = Inr s1" and l: "addThreads_loop n s1 = Inr s'"
    by (auto split: sum.splits)
  from addThreads_iteration_grows [OF i] Suc.IH [OF l] show ?case by simp
qed



text \<open>On a recycle queue that is in order a pass returns and leaves the queue in order.\<close>

lemma addThreads_iteration_recyclable:
  assumes "recyclable s"
  shows "\<exists>s'. addThreads_iteration s = Inr s' \<and> recyclable s'"
proof (cases "deleted_threads s")
  case Nil
  then show ?thesis by (simp add: addThreads_iteration_def recyclable_def)
next
  case (Cons idx rest)
  with assms have lt: "idx < length (pond s)" and fin: "pond s ! idx = Joinable Finished"
    and nin: "idx \<notin> set rest" and dr: "distinct rest"
    and rest: "\<forall>k \<in> set rest. k < length (pond s) \<and> pond s ! k = Joinable Finished"
    by (simp_all add: recyclable_def)
  let ?s1 = "s\<lparr>deleted_threads := rest, pond := (pond s)[idx := Joinable LoopHead],
               thread_numb := thread_numb s + 1\<rparr>"
  have "join idx (s\<lparr>deleted_threads := rest\<rparr>) =
          Inr (s\<lparr>deleted_threads := rest, pond := (pond s)[idx := NotJoinable]\<rparr>)"
    using join_finished [of idx "s\<lparr>deleted_threads := rest\<rparr>"] lt fin by simp
  with Cons have it: "addThreads_iteration s = Inr ?s1"
    by (simp add: addThreads_iteration_def)
  have "(pond s)[idx := Joinable LoopHead] ! k = pond s ! k" if "k \<in> set rest" for k
  proof -
    from that nin have "idx \<noteq> k" by blast
    then show ?thesis by simp
  qed
  with nin dr rest have "recyclable ?s1" by (simp add: recyclable_def)
  with it show ?thesis by simp
qed

lemma addThreads_loop_recyclable:
  "recyclable s \<Longrightarrow> \<exists>s'. addThreads_loop n s = Inr s' \<and> recyclable s'"
proof (induction n arbitrary: s)
  case 0
  then show ?case by simp
next
  case (Suc n)
  from addThreads_iteration_recyclable [OF Suc.prems] obtain s1 where
    i: "addThreads_iteration s = Inr s1" and r: "recyclable s1" by blast
  from Suc.IH [OF r] i show ?case by simp
qed




subsection \<open>Adjusting\<close>

lemma pc_step_recyclable:
  assumes "pc_step i pc s = Inr s'" and "i < length (pond s)" and "pond s ! i = Joinable pc"
    and "recyclable s"
  shows "recyclable s'"
proof (cases "pc = Finished")
  case True
  with assms show ?thesis by (simp add: pc_step_def)
next
  case False
  with assms(3,4) have nin: "i \<notin> set (deleted_threads s)"
    by (auto simp: recyclable_def)
  have keep: "(pond s)[i := x] ! k = pond s ! k" if "k \<in> set (deleted_threads s)" for k x
  proof -
    from that nin have "i \<noteq> k" by blast
    then show ?thesis by simp
  qed
  from assms(1,2,4) nin keep show ?thesis
    by (cases pc)
       (auto simp: pc_step_def worker_wake_def set_pc_def notify_def recyclable_def
          split: if_splits list.splits invoke_result.splits option.splits)
qed

lemma worker_step_recyclable:
  assumes "worker_step i s = Inr s'" and "recyclable s"
  shows "recyclable s'"
  using assms pc_step_recyclable [of i _ s s']
  by (auto simp: worker_step_def split: if_splits thread.splits)

lemma addThreads_recyclable:
  assumes "addThreads n s = Inr s'" and "recyclable s"
  shows "recyclable s'"
  using assms addThreads_loop_recyclable [OF assms(2), of "nat n"]
  by (auto simp: addThreads_def split: if_splits)

lemma step_recyclable:
  assumes "step ev s = Inr s'" and "ev \<noteq> Close" and "recyclable s"
  shows "recyclable s'"
proof (cases ev)
  case (Work j)
  with assms show ?thesis by (auto dest: worker_step_recyclable)
next
  case (SubmitInBatch cont n)
  with assms obtain s1 where
    e: "emplace_loop cont n 0 (s\<lparr>total_tasks := total_tasks s + of_nat n\<rparr>) = Inr s1"
    and s': "s' = notify (NotifyAll awake_cv) s1"
    by (auto simp: submitInBatch_def split: sum.splits)
  from emplace_loop_queue [OF e] assms(3) show ?thesis
    by (simp add: s' notify_def recyclable_def)
next
  case (AddThreads n)
  with assms show ?thesis by (auto dest: addThreads_recyclable)
next
  case AddThreadsIteration
  with assms addThreads_iteration_recyclable [OF assms(3)] show ?thesis by auto
next
  case (AdjustThreads n)
  with assms show ?thesis
    by (auto simp: adjustThreads_def delThreads_def notify_def
          split: if_splits dest: addThreads_recyclable)
       (auto simp: recyclable_def)
next
  case Close
  with assms show ?thesis by simp
qed (use assms in \<open>auto simp: submit_def submitForReturn_def delThreads_def notify_def
      waitForTasks_def waitForTasks_signalled_def resetTaskLoaded_def recyclable_def
      split: if_splits\<close>)

lemma run_recyclable:
  "run evs s = Inr s' \<Longrightarrow> Close \<notin> set evs \<Longrightarrow> recyclable s \<Longrightarrow> recyclable s'"
  by (induction evs arbitrary: s) (auto split: sum.splits dest: step_recyclable)

lemma DynamicThreadPond_recyclable:
  "DynamicThreadPond n = Inr s \<Longrightarrow> recyclable s"
  by (auto simp: DynamicThreadPond_def recyclable_def split: if_splits)

text \<open>
  C9: in every state that a run without \<open>close()\<close> reaches from a constructed pond,
  \<open>adjustThreads(target)\<close> with \<open>target \<ge> 0\<close> returns, and \<open>thread_numb\<close> is \<open>target\<close>
  afterwards. It is \<open>addThreads(target - thread_numb)\<close> when the target is larger,
  \<open>delThreads(thread_numb - target)\<close> when it is smaller, and it changes nothing when the
  two are equal.
\<close>

theorem adjustThreads_reaches_target:
  assumes "DynamicThreadPond n = Inr s0" and "run evs s0 = Inr s" and "Close \<notin> set evs"
    and "0 \<le> target"
  shows "\<exists>s'. adjustThreads target s = Inr s' \<and> thread_numb s' = target \<and>
           (thread_numb s < target \<longrightarrow> addThreads (target - thread_numb s) s = Inr s') \<and>
           (target < thread_numb s \<longrightarrow> delThreads (thread_numb s - target) s = Inr s') \<and>
           (target = thread_numb s \<longrightarrow> s' = s)"
proof -
  have r: "recyclable s"
    using run_recyclable [OF assms(2,3) DynamicThreadPond_recyclable [OF assms(1)]] .
  consider (grow) "thread_numb s < target" | (shrink) "target < thread_numb s"
    | (same) "target = thread_numb s"
    by linarith
  then show ?thesis
  proof cases
    case grow
    from addThreads_loop_recyclable [OF r, of "nat (target - thread_numb s)"]
    obtain s' where l: "addThreads_loop (nat (target - thread_numb s)) s = Inr s'"
      by blast
    from addThreads_loop_grows [OF l] grow have "thread_numb s' = target" by simp
    with l grow assms(4) show ?thesis by (simp add: adjustThreads_def addThreads_def)
  next
    case shrink
    with assms(4) show ?thesis
      by (simp add: adjustThreads_def delThreads_def notify_def)
  next
    case same
    with assms(4) show ?thesis by (simp add: adjustThreads_def)
  qed
qed

text \<open>
  C9: the theorem at \<open>shrunk1\<close> for the targets 2 and 0, and at \<open>idle1\<close> for the target 0.
\<close>

theorem adjustThreads_reaches_target_witness:
  "DynamicThreadPond 1 = Inr idle1 \<and>
   run [DelThreads 1, Work 0, Work 0] idle1 = Inr shrunk1 \<and>
   Close \<notin> set [DelThreads 1, Work 0, Work 0] \<and>
   adjustThreads 2 shrunk1 =
     Inr (shrunk1\<lparr>thread_numb := 2, deleted_threads := [],
            pond := [Joinable LoopHead, Joinable LoopHead]\<rparr>) \<and>
   adjustThreads 0 shrunk1 = Inr shrunk1 \<and>
   run [] idle1 = Inr idle1 \<and>
   adjustThreads 0 idle1 =
     Inr (idle1\<lparr>thread_numb := 0, shrink_numb := 1, notified := [NotifyAll awake_cv]\<rparr>)"
proof -
  have h1: "DynamicThreadPond 1 = Inr idle1"
    by (simp add: DynamicThreadPond_def idle1_def)
  have h2: "run [DelThreads 1, Work 0, Work 0] idle1 = Inr shrunk1"
    by (simp add: idle1_def shrunk1_def delThreads_def notify_def
          worker_step_def pc_step_def set_pc_def wait_pred_def worker_wake_def)
  have h3: "Close \<notin> set [DelThreads 1, Work 0, Work 0]" by simp
  have h4: "run [] idle1 = Inr idle1" by simp
  have a: "adjustThreads 2 shrunk1 =
     Inr (shrunk1\<lparr>thread_numb := 2, deleted_threads := [],
            pond := [Joinable LoopHead, Joinable LoopHead]\<rparr>)"
    by (simp add: adjustThreads_def addThreads_def addThreads_iteration_def shrunk1_def
          numeral_2_eq_2 join_def worker.simps runnable_def)
  from adjustThreads_reaches_target [OF h1 h2 h3, of 2]
    adjustThreads_reaches_target [OF h1 h2 h3, of 0]
    adjustThreads_reaches_target [OF h1 h4, of 0]
    h1 h2 h3 h4 a
  show ?thesis
    by (simp add: shrunk1_def idle1_def delThreads_def notify_def)
qed

end
